theory Spec2Isabelle
  imports Main "HOL-Library.AList" "HOL-Library.Char_ord" "HOL-Library.List_Lexorder"
    "HOL-Library.Product_Lexorder"
begin

section \<open>Python values\<close>

text \<open>
  A Python \<^verbatim>\<open>dict\<close> keeps its keys in insertion order; assigning to a key that is present
  keeps its position, assigning to a new key appends it. That is \<open>AList.update\<close> on an
  association list, read with \<open>map_of\<close>.

  A \<^verbatim>\<open>defaultdict(f)\<close> differs in one way: reading a missing key stores \<^verbatim>\<open>f()\<close> under
  the key and returns it. \<open>dd_getitem\<close> returns the value read and the dictionary after
  the read.
\<close>

type_synonym ('k, 'a) dict = "('k \<times> 'a) list"

definition dd_getitem :: "'a \<Rightarrow> 'k \<Rightarrow> ('k, 'a) dict \<Rightarrow> 'a \<times> ('k, 'a) dict" where
  "dd_getitem dflt k d = (case map_of d k of Some x \<Rightarrow> (x, d) | None \<Rightarrow> (dflt, d @ [(k, dflt)]))"

text \<open>The only exception the modelled code can raise is a \<^verbatim>\<open>KeyError\<close> of a plain dictionary.\<close>

datatype py_error = KeyError

text \<open>
  A result that can raise or fail to return: \<open>None\<close> is a loop that never ends,
  \<open>Some (Inl e)\<close> an exception, \<open>Some (Inr x)\<close> the value returned.
\<close>

type_synonym 'a result = "(py_error + 'a) option"

text \<open>A Python number that is an \<^verbatim>\<open>int\<close> or \<^verbatim>\<open>float('inf')\<close>.\<close>

datatype num = Fin int | Infinity

section \<open>graphs.py: class Graph\<close>

type_synonym 'v adjacency = "('v, ('v \<times> int) list) dict"

record 'v graph =
  directed :: bool
  adj_list :: "'v adjacency"
  vertices :: "'v set"
  edges :: "('v \<times> 'v \<times> int) list"

definition Graph :: "bool \<Rightarrow> 'v graph" where
  "Graph d = \<lparr>directed = d, adj_list = [], vertices = {}, edges = []\<rparr>"

definition add_vertex :: "'v \<Rightarrow> 'v graph \<Rightarrow> 'v graph" where
  "add_vertex vertex g = g\<lparr>vertices := insert vertex (vertices g)\<rparr>"

text \<open>\<^verbatim>\<open>self.adj_list[u].append((v, w))\<close>: a defaultdict read, then the list under \<open>u\<close> grows.\<close>

definition adj_append :: "'v \<Rightarrow> 'v \<times> int \<Rightarrow> 'v adjacency \<Rightarrow> 'v adjacency" where
  "adj_append u e a = (case dd_getitem [] u a of (l, a1) \<Rightarrow> AList.update u (l @ [e]) a1)"

definition add_edge :: "'v \<Rightarrow> 'v \<Rightarrow> int \<Rightarrow> 'v graph \<Rightarrow> 'v graph" where
  "add_edge from_vertex to_vertex weight g =
     (let g1 = g\<lparr>vertices := insert to_vertex (insert from_vertex (vertices g))\<rparr>;
          g2 = g1\<lparr>adj_list := adj_append from_vertex (to_vertex, weight) (adj_list g1)\<rparr>;
          g3 = g2\<lparr>edges := edges g2 @ [(from_vertex, to_vertex, weight)]\<rparr>
      in if \<not> directed g3
         then g3\<lparr>adj_list := adj_append to_vertex (from_vertex, weight) (adj_list g3)\<rparr>
         else g3)"

text \<open>
  \<^verbatim>\<open>get_vertices\<close> returns \<^verbatim>\<open>list(self.vertices)\<close>: the vertices once each, in the order
  the set happens to iterate. The order is not fixed by the program, so a list \<open>vs\<close> is a
  possible result exactly when \<open>get_vertices g vs\<close>.
\<close>

definition get_vertices :: "'v graph \<Rightarrow> 'v list \<Rightarrow> bool" where
  "get_vertices g vs = (distinct vs \<and> set vs = vertices g)"

definition get_edges :: "'v graph \<Rightarrow> ('v \<times> 'v \<times> int) list" where
  "get_edges g = edges g"

text \<open>A caller builds a graph by a sequence of \<^verbatim>\<open>add_vertex\<close> and \<^verbatim>\<open>add_edge\<close> calls.\<close>

datatype 'v graph_call = Add_vertex 'v | Add_edge 'v 'v int

fun call :: "'v graph_call \<Rightarrow> 'v graph \<Rightarrow> 'v graph" where
  "call (Add_vertex v) g = add_vertex v g"
| "call (Add_edge u v w) g = add_edge u v w g"

definition build :: "bool \<Rightarrow> 'v graph_call list \<Rightarrow> 'v graph" where
  "build d cs = foldl (\<lambda>g c. call c g) (Graph d) cs"

text \<open>The vertices named by the edge list and by the adjacency (its keys and the neighbours).\<close>

definition edge_endpoints :: "'v graph \<Rightarrow> 'v set" where
  "edge_endpoints g = (\<Union>(u, v, w) \<in> set (edges g). {u, v})"

definition adj_keys :: "'v adjacency \<Rightarrow> 'v set" where
  "adj_keys a = fst ` set a"

definition adj_neighbors :: "'v adjacency \<Rightarrow> 'v set" where
  "adj_neighbors a = (\<Union>(u, l) \<in> set a. fst ` set l)"

subsection \<open>The vertices an adjacency names\<close>

lemma adj_keys_append: "adj_keys (adj_append u e a) = insert u (adj_keys a)"
  by (auto simp: adj_keys_def adj_append_def dd_getitem_def dom_update split: option.splits)

lemma set_update_subset: "set (AList.update k v al) \<subseteq> insert (k, v) (set al)"
  by (induction al) auto

lemma adj_neighbors_append:
  "adj_neighbors (adj_append u e a) \<subseteq> insert (fst e) (adj_neighbors a)"
proof
  fix x assume "x \<in> adj_neighbors (adj_append u e a)"
  then obtain k l where kl: "(k, l) \<in> set (adj_append u e a)" and x: "x \<in> fst ` set l"
    by (auto simp: adj_neighbors_def)
  show "x \<in> insert (fst e) (adj_neighbors a)"
  proof (cases "map_of a u")
    case None
    with kl have "(k, l) \<in> insert (u, [e]) (set (a @ [(u, [])]))"
      using set_update_subset[of u "[e]" "a @ [(u, [])]"]
      by (auto simp: adj_append_def dd_getitem_def)
    with x show ?thesis by (auto simp: adj_neighbors_def)
  next
    case (Some l0)
    then have l0: "(u, l0) \<in> set a" by (rule map_of_SomeD)
    from Some kl have "(k, l) \<in> insert (u, l0 @ [e]) (set a)"
      using set_update_subset[of u "l0 @ [e]" a]
      by (auto simp: adj_append_def dd_getitem_def)
    with x l0 show ?thesis by (force simp: adj_neighbors_def)
  qed
qed

text \<open>Every graph built by \<^verbatim>\<open>add_vertex\<close> and \<^verbatim>\<open>add_edge\<close> calls names only its own vertices.\<close>

lemma build_closed:
  fixes cs :: "'v graph_call list"
  shows "edge_endpoints (build d cs) \<union> adj_keys (adj_list (build d cs))
     \<union> adj_neighbors (adj_list (build d cs)) \<subseteq> vertices (build d cs)"
proof -
  have step: "edge_endpoints (call c g) \<union> adj_keys (adj_list (call c g))
      \<union> adj_neighbors (adj_list (call c g)) \<subseteq> vertices (call c g)"
    if inv: "edge_endpoints g \<union> adj_keys (adj_list g) \<union> adj_neighbors (adj_list g) \<subseteq> vertices g"
    for c and g :: "'v graph"
  proof (cases c)
    case (Add_vertex v)
    with inv show ?thesis
      by (auto simp: add_vertex_def edge_endpoints_def)
  next
    case (Add_edge u v w)
    have n1: "adj_neighbors (adj_append u (v, w) (adj_list g)) \<subseteq> insert v (adj_neighbors (adj_list g))"
      using adj_neighbors_append[of u "(v, w)"] by simp
    have n2: "adj_neighbors (adj_append v (u, w) (adj_append u (v, w) (adj_list g)))
        \<subseteq> insert u (insert v (adj_neighbors (adj_list g)))"
      using adj_neighbors_append[of v "(u, w)" "adj_append u (v, w) (adj_list g)"] n1 by auto
    have e: "edge_endpoints (call c g) = insert u (insert v (edge_endpoints g))"
      using Add_edge by (auto simp: add_edge_def Let_def edge_endpoints_def)
    have vs: "vertices (call c g) = insert v (insert u (vertices g))"
      using Add_edge by (simp add: add_edge_def Let_def)
    have k: "adj_keys (adj_list (call c g)) \<subseteq> insert u (insert v (adj_keys (adj_list g)))"
      using Add_edge by (auto simp: add_edge_def Let_def adj_keys_append)
    have n: "adj_neighbors (adj_list (call c g)) \<subseteq> insert u (insert v (adj_neighbors (adj_list g)))"
      using Add_edge n1 n2 by (cases "directed g") (auto simp: add_edge_def Let_def)
    from inv e vs k n show ?thesis by blast
  qed
  have "edge_endpoints (foldl (\<lambda>g c. call c g) g0 cs) \<union> adj_keys (adj_list (foldl (\<lambda>g c. call c g) g0 cs))
      \<union> adj_neighbors (adj_list (foldl (\<lambda>g c. call c g) g0 cs)) \<subseteq> vertices (foldl (\<lambda>g c. call c g) g0 cs)"
    if "edge_endpoints g0 \<union> adj_keys (adj_list g0) \<union> adj_neighbors (adj_list g0) \<subseteq> vertices g0"
    for g0 :: "'v graph"
    using that
  proof (induction cs arbitrary: g0)
    case Nil
    then show ?case by simp
  next
    case (Cons c cs)
    show ?case using Cons.IH[OF step[OF Cons.prems]] by simp
  qed
  moreover have "edge_endpoints (Graph d :: 'v graph) \<union> adj_keys (adj_list (Graph d :: 'v graph))
      \<union> adj_neighbors (adj_list (Graph d :: 'v graph)) \<subseteq> vertices (Graph d :: 'v graph)"
    by (simp add: Graph_def edge_endpoints_def adj_keys_def adj_neighbors_def)
  ultimately show ?thesis unfolding build_def by blast
qed

section \<open>graphs.py: bfs and dfs\<close>

text \<open>
  What a read \<^verbatim>\<open>self.adj_list[v]\<close> returns: the list stored under \<open>v\<close>, or the empty list
  a defaultdict makes up for a missing key.
\<close>

definition adj_of :: "'v adjacency \<Rightarrow> 'v \<Rightarrow> ('v \<times> int) list" where
  "adj_of a v = (case map_of a v of Some l \<Rightarrow> l | None \<Rightarrow> [])"

lemma dd_getitem_adj: "dd_getitem [] v a = (adj_of a v, snd (dd_getitem [] v a))"
  by (simp add: dd_getitem_def adj_of_def split: option.splits)

lemma adj_of_dd_getitem: "adj_of (snd (dd_getitem [] v a)) = adj_of a"
  by (auto simp: dd_getitem_def adj_of_def fun_eq_iff map_of_append split: option.splits if_splits)

lemma adj_neighbors_dd_getitem: "adj_neighbors (snd (dd_getitem [] v a)) = adj_neighbors a"
  by (auto simp: dd_getitem_def adj_neighbors_def split: option.splits)

lemma adj_of_neighbors: "fst ` set (adj_of a v) \<subseteq> adj_neighbors a"
proof (cases "map_of a v")
  case None
  then show ?thesis by (simp add: adj_of_def)
next
  case (Some l)
  then have "(v, l) \<in> set a" by (rule map_of_SomeD)
  then have "fst ` set l \<subseteq> adj_neighbors a" by (force simp: adj_neighbors_def)
  with Some show ?thesis by (simp add: adj_of_def)
qed

lemma finite_adj_neighbors: "finite (adj_neighbors a)"
  by (simp add: adj_neighbors_def case_prod_beta)

subsection \<open>bfs\<close>

fun bfs_neighbors :: "('v \<times> int) list \<Rightarrow> 'v set \<times> 'v list \<Rightarrow> 'v set \<times> 'v list" where
  "bfs_neighbors [] (seen, q) = (seen, q)"
| "bfs_neighbors ((neighbor, w) # rest) (seen, q) =
     (if neighbor \<notin> seen
      then bfs_neighbors rest (insert neighbor seen, q @ [neighbor])
      else bfs_neighbors rest (seen, q))"

lemma bfs_neighbors_visited:
  "bfs_neighbors nbrs (V, Q) = (V', Q') \<Longrightarrow>
     V \<subseteq> V' \<and> V' \<subseteq> V \<union> fst ` set nbrs \<and> (V' = V \<longrightarrow> Q' = Q)"
proof (induction nbrs arbitrary: V Q)
  case Nil
  then show ?case by simp
next
  case (Cons x nbrs)
  obtain n w where x: "x = (n, w)" by (cases x)
  show ?case
  proof (cases "n \<in> V")
    case True
    with Cons.prems x have "bfs_neighbors nbrs (V, Q) = (V', Q')" by simp
    from Cons.IH[OF this] show ?thesis by auto
  next
    case False
    with Cons.prems x have "bfs_neighbors nbrs (insert n V, Q @ [n]) = (V', Q')" by simp
    from Cons.IH[OF this] False x show ?thesis by auto
  qed
qed


function bfs_while :: "'v adjacency \<Rightarrow> 'v set \<Rightarrow> 'v list \<Rightarrow> 'v list \<Rightarrow> 'v list \<times> 'v adjacency" where
  "bfs_while a seen [] bfs_order = (bfs_order, a)"
| "bfs_while a seen (vertex # q) bfs_order =
     (case dd_getitem [] vertex a of (nbrs, a') \<Rightarrow>
        (case bfs_neighbors nbrs (seen, q) of (seen', q') \<Rightarrow>
           bfs_while a' seen' q' (bfs_order @ [vertex])))"
  by pat_completeness auto

termination
proof (relation "(\<lambda>(a, seen, q, bfs_order). card (adj_neighbors a - seen))
    <*mlex*> measure (\<lambda>(a, seen, q, bfs_order). length q)", goal_cases)
  case 1
  show ?case by (simp add: wf_mlex)
next
  case (2 a seen vertex q bfs_order nbrs a' seen' q')
  from 2(1) have nb: "nbrs = adj_of a vertex" and a': "a' = snd (dd_getitem [] vertex a)"
    using dd_getitem_adj[of vertex a] by (metis fst_conv snd_conv)+
  have N: "adj_neighbors a' = adj_neighbors a"
    by (simp add: a' adj_neighbors_dd_getitem)
  from 2(2) have b: "bfs_neighbors nbrs (seen, q) = (seen', q')" by simp
  note v = bfs_neighbors_visited[OF b]
  show ?case
  proof (cases "seen' = seen")
    case True
    with v have "q' = q" by simp
    with True N show ?thesis by (simp add: mlex_iff)
  next
    case False
    with v obtain x where x: "x \<in> seen'" "x \<notin> seen" by auto
    with v have "x \<in> fst ` set nbrs" by auto
    with nb adj_of_neighbors[of a vertex] have "x \<in> adj_neighbors a" by auto
    with x v have "adj_neighbors a - seen' \<subset> adj_neighbors a - seen" by auto
    then have "card (adj_neighbors a - seen') < card (adj_neighbors a - seen)"
      by (intro psubset_card_mono) (simp_all add: finite_adj_neighbors)
    with N show ?thesis by (simp add: mlex_iff)
  qed
qed

definition bfs :: "'v graph \<Rightarrow> 'v \<Rightarrow> 'v list \<times> 'v graph" where
  "bfs g start_vertex =
     (if start_vertex \<notin> vertices g then ([], g)
      else case bfs_while (adj_list g) {start_vertex} [start_vertex] [] of
             (bfs_order, a) \<Rightarrow> (bfs_order, g\<lparr>adj_list := a\<rparr>))"


subsection \<open>dfs\<close>

function dfs_recursive :: "'v \<Rightarrow> 'v adjacency \<times> 'v set \<times> 'v list \<Rightarrow> 'v adjacency \<times> 'v set \<times> 'v list"
  and dfs_recursive_for :: "('v \<times> int) list \<Rightarrow> 'v adjacency \<times> 'v set \<times> 'v list \<Rightarrow> 'v adjacency \<times> 'v set \<times> 'v list"
where
  "dfs_recursive vertex (a, seen, dfs_order) =
     (case dd_getitem [] vertex a of (nbrs, a') \<Rightarrow>
        dfs_recursive_for nbrs (a', insert vertex seen, dfs_order @ [vertex]))"
| "dfs_recursive_for [] s = s"
| "dfs_recursive_for ((neighbor, w) # rest) (a, seen, dfs_order) =
     (if neighbor \<notin> seen
      then dfs_recursive_for rest (dfs_recursive neighbor (a, seen, dfs_order))
      else dfs_recursive_for rest (a, seen, dfs_order))"
  by pat_completeness auto


lemma dfs_recursive_grows_dom:
  "dfs_recursive_dfs_recursive_for_dom (Inl (v, s)) \<Longrightarrow>
     fst (snd s) \<subseteq> fst (snd (dfs_recursive v s))
     \<and> adj_neighbors (fst (dfs_recursive v s)) = adj_neighbors (fst s)"
  "dfs_recursive_dfs_recursive_for_dom (Inr (nbrs, s)) \<Longrightarrow>
     fst (snd s) \<subseteq> fst (snd (dfs_recursive_for nbrs s))
     \<and> adj_neighbors (fst (dfs_recursive_for nbrs s)) = adj_neighbors (fst s)"
proof (induction v s and nbrs s rule: dfs_recursive_dfs_recursive_for.pinduct)
  case (1 vertex a seen dfs_order)
  obtain nbrs a' where g: "dd_getitem [] vertex a = (nbrs, a')"
    by (cases "dd_getitem [] vertex a")
  then have "adj_neighbors a' = adj_neighbors a"
    using adj_neighbors_dd_getitem[of vertex a] by simp
  with 1(2)[OF g[symmetric]] show ?case
    by (auto simp: dfs_recursive.psimps[OF 1(1)] g)
next
  case (2 s)
  then show ?case by (simp add: dfs_recursive_for.psimps)
next
  case (3 neighbor w rest a seen dfs_order)
  show ?case
  proof (cases "neighbor \<in> seen")
    case True
    with 3(4) show ?thesis by (simp add: dfs_recursive_for.psimps(2)[OF 3(1)])
  next
    case False
    from 3(2)[OF False] 3(3)[OF False] False show ?thesis
      by (auto simp: dfs_recursive_for.psimps(2)[OF 3(1)])
  qed
qed

termination dfs_recursive
proof (relation "(\<lambda>x. case x of
          Inl (v, a, seen, dfs_order) \<Rightarrow> card (adj_neighbors a - insert v seen)
        | Inr (nbrs, a, seen, dfs_order) \<Rightarrow> card ((adj_neighbors a \<union> fst ` set nbrs) - seen))
    <*mlex*> (\<lambda>x. case x of Inl _ \<Rightarrow> 1 | Inr _ \<Rightarrow> (0::nat))
    <*mlex*> measure (\<lambda>x. case x of Inl _ \<Rightarrow> 0 | Inr (nbrs, _) \<Rightarrow> length nbrs)", goal_cases)
  case 1
  show ?case by (simp add: wf_mlex)
next
  case (2 vertex a seen dfs_order nbrs a')
  from 2 have nb: "nbrs = adj_of a vertex" and a': "a' = snd (dd_getitem [] vertex a)"
    using dd_getitem_adj[of vertex a] by (metis fst_conv snd_conv)+
  have "adj_neighbors a' \<union> fst ` set nbrs = adj_neighbors a"
    using adj_of_neighbors[of a vertex] by (auto simp: nb a' adj_neighbors_dd_getitem)
  then show ?case by (simp add: mlex_iff)
next
  case (3 neighbor w rest a seen dfs_order)
  have "adj_neighbors a - insert neighbor seen \<subset> adj_neighbors a \<union> fst ` set ((neighbor, w) # rest) - seen"
    using 3 by auto
  then have "card (adj_neighbors a - insert neighbor seen) < card (adj_neighbors a \<union> fst ` set ((neighbor, w) # rest) - seen)"
    by (intro psubset_card_mono) (simp_all add: finite_adj_neighbors)
  then show ?case by (simp add: mlex_iff)
next
  case (4 neighbor w rest a seen dfs_order)
  obtain a' seen' order' where r: "dfs_recursive neighbor (a, seen, dfs_order) = (a', seen', order')"
    by (cases "dfs_recursive neighbor (a, seen, dfs_order)")
  from dfs_recursive_grows_dom(1)[OF 4(2)] r have g: "seen \<subseteq> seen'" "adj_neighbors a' = adj_neighbors a"
    by simp_all
  have "card (adj_neighbors a' \<union> fst ` set rest - seen') \<le> card (adj_neighbors a \<union> fst ` set ((neighbor, w) # rest) - seen)"
    using g by (intro card_mono) (auto simp: finite_adj_neighbors)
  then show ?case by (auto simp: mlex_iff r)
next
  case (5 neighbor w rest a seen dfs_order)
  have "card (adj_neighbors a \<union> fst ` set rest - seen) \<le> card (adj_neighbors a \<union> fst ` set ((neighbor, w) # rest) - seen)"
    by (intro card_mono) (auto simp: finite_adj_neighbors)
  then show ?case by (auto simp: mlex_iff)
qed

definition dfs :: "'v graph \<Rightarrow> 'v \<Rightarrow> 'v list \<times> 'v graph" where
  "dfs g start_vertex =
     (if start_vertex \<notin> vertices g then ([], g)
      else case dfs_recursive start_vertex (adj_list g, {}, []) of
             (a, seen, dfs_order) \<Rightarrow> (dfs_order, g\<lparr>adj_list := a\<rparr>))"

section \<open>graphs.py: dijkstra\<close>

fun int_less_num :: "int \<Rightarrow> num \<Rightarrow> bool" where
  "int_less_num d (Fin x) = (d < x)"
| "int_less_num d Infinity = True"

fun int_greater_num :: "int \<Rightarrow> num \<Rightarrow> bool" where
  "int_greater_num d (Fin x) = (d > x)"
| "int_greater_num d Infinity = False"

text \<open>
  \<^verbatim>\<open>heapq\<close>: \<^verbatim>\<open>heappop\<close> removes and returns the least entry, and entries that compare equal
  are equal tuples, so only the entries held matter, not the heap's layout. The queue is
  the list of its entries.
\<close>

definition heappush :: "'a list \<Rightarrow> 'a \<Rightarrow> 'a list" where
  "heappush h x = h @ [x]"

definition heappop :: "('a::linorder) list \<Rightarrow> 'a \<times> 'a list" where
  "heappop h = (Min (set h), remove1 (Min (set h)) h)"

record 'v dijkstra_state =
  dj_adj :: "'v adjacency"
  distances :: "'v \<rightharpoonup> num"
  paths :: "'v \<rightharpoonup> 'v list"
  priority_queue :: "(int \<times> 'v) list"

fun relax :: "int \<Rightarrow> 'v \<Rightarrow> ('v \<times> int) list \<Rightarrow> 'v dijkstra_state \<Rightarrow> py_error + 'v dijkstra_state" where
  "relax current_distance current_vertex [] s = Inr s"
| "relax current_distance current_vertex ((neighbor, weight) # rest) s =
     (let distance = current_distance + weight
      in case distances s neighbor of
           None \<Rightarrow> Inl KeyError
         | Some dn \<Rightarrow>
            if int_less_num distance dn
            then (case paths s current_vertex of
                    None \<Rightarrow> Inl KeyError
                  | Some p \<Rightarrow>
                     relax current_distance current_vertex rest
                       (s\<lparr>distances := (distances s)(neighbor \<mapsto> Fin distance),
                          paths := (paths s)(neighbor \<mapsto> p @ [neighbor]),
                          priority_queue := heappush (priority_queue s) (distance, neighbor)\<rparr>))
            else relax current_distance current_vertex rest s)"

partial_function (option) dijkstra_while ::
  "('v::linorder) dijkstra_state \<Rightarrow> 'v dijkstra_state result" where
  "dijkstra_while s =
     (if priority_queue s = [] then Some (Inr s)
      else case heappop (priority_queue s) of ((current_distance, current_vertex), h) \<Rightarrow>
        (case distances s current_vertex of
           None \<Rightarrow> Some (Inl KeyError)
         | Some dc \<Rightarrow>
            if int_greater_num current_distance dc
            then dijkstra_while (s\<lparr>priority_queue := h\<rparr>)
            else (case dd_getitem [] current_vertex (dj_adj s) of (nbrs, a) \<Rightarrow>
                   (case relax current_distance current_vertex nbrs (s\<lparr>priority_queue := h, dj_adj := a\<rparr>) of
                      Inl e \<Rightarrow> Some (Inl e)
                    | Inr s' \<Rightarrow> dijkstra_while s'))))"

declare dijkstra_while.simps [code]

datatype 'v dijkstra_result = Empty_dict | Distances_paths "'v \<rightharpoonup> num" "'v \<rightharpoonup> 'v list"

definition dijkstra :: "('v::linorder) graph \<Rightarrow> 'v \<Rightarrow> ('v dijkstra_result \<times> 'v graph) result" where
  "dijkstra g start_vertex =
     (if start_vertex \<notin> vertices g then Some (Inr (Empty_dict, g))
      else case dijkstra_while
                  \<lparr>dj_adj = adj_list g,
                   distances = (\<lambda>v. if v \<in> vertices g then Some Infinity else None)(start_vertex \<mapsto> Fin 0),
                   paths = (\<lambda>v. if v \<in> vertices g then Some [] else None)(start_vertex \<mapsto> [start_vertex]),
                   priority_queue = [(0, start_vertex)]\<rparr> of
             None \<Rightarrow> None
           | Some (Inl e) \<Rightarrow> Some (Inl e)
           | Some (Inr s) \<Rightarrow> Some (Inr (Distances_paths (distances s) (paths s), g\<lparr>adj_list := dj_adj s\<rparr>)))"

section \<open>maximum_flow.py: class MaxFlow\<close>

type_synonym 'v residual = "('v, ('v, int) dict) dict"

record 'v max_flow =
  mf_graph :: "'v graph"
  mf_vertices :: "'v list"
  residual_graph :: "'v residual"

definition res_setitem :: "'v \<Rightarrow> 'v \<Rightarrow> int \<Rightarrow> 'v residual \<Rightarrow> 'v residual" where
  "res_setitem u v c r = (case dd_getitem [] u r of (inner, r1) \<Rightarrow> AList.update u (AList.update v c inner) r1)"

fun initialize_neighbors :: "'v \<Rightarrow> ('v \<times> int) list \<Rightarrow> 'v residual \<Rightarrow> 'v residual" where
  "initialize_neighbors vertex [] r = r"
| "initialize_neighbors vertex ((neighbor, capacity) # rest) r =
     (let r1 = res_setitem vertex neighbor capacity r;
          r2 = (if map_of r1 neighbor = None then AList.update neighbor [] r1 else r1);
          r3 = res_setitem neighbor vertex 0 r2
      in initialize_neighbors vertex rest r3)"

fun initialize_vertices :: "'v list \<Rightarrow> 'v max_flow \<Rightarrow> 'v max_flow" where
  "initialize_vertices [] mf = mf"
| "initialize_vertices (vertex # rest) mf =
     (case dd_getitem [] vertex (adj_list (mf_graph mf)) of (nbrs, a) \<Rightarrow>
        initialize_vertices rest
          (mf\<lparr>mf_graph := (mf_graph mf)\<lparr>adj_list := a\<rparr>,
              residual_graph := initialize_neighbors vertex nbrs (residual_graph mf)\<rparr>))"

definition initialize_residual_graph :: "'v max_flow \<Rightarrow> 'v max_flow" where
  "initialize_residual_graph mf = initialize_vertices (mf_vertices mf) mf"

definition MaxFlow :: "'v graph \<Rightarrow> 'v list \<Rightarrow> 'v max_flow" where
  "MaxFlow g vs = initialize_residual_graph \<lparr>mf_graph = g, mf_vertices = vs, residual_graph = []\<rparr>"

definition residual :: "'v max_flow \<Rightarrow> 'v \<Rightarrow> 'v \<Rightarrow> int option" where
  "residual mf u v = (case map_of (residual_graph mf) u of None \<Rightarrow> None | Some inner \<Rightarrow> map_of inner v)"


subsection \<open>bfs_augmenting_path and ford_fulkerson\<close>

record 'v search =
  s_residual :: "'v residual"
  s_parent :: "'v \<rightharpoonup> 'v option"
  s_min_capacity :: "'v \<rightharpoonup> num"
  s_queue :: "'v list"

fun py_min :: "num \<Rightarrow> int \<Rightarrow> int" where
  "py_min Infinity c = c"
| "py_min (Fin a) c = min a c"

partial_function (option) reconstruct_path ::
  "('v \<rightharpoonup> 'v option) \<Rightarrow> 'v option \<Rightarrow> 'v list \<Rightarrow> 'v list result" where
  "reconstruct_path par current path =
     (case current of
        None \<Rightarrow> Some (Inr path)
      | Some c \<Rightarrow> (case par c of
                    None \<Rightarrow> Some (Inl KeyError)
                  | Some p \<Rightarrow> reconstruct_path par p (path @ [c])))"

declare reconstruct_path.simps [code]

datatype 'v scan = Return "'v list" int | Next "'v search"

fun scan_items :: "'v \<Rightarrow> 'v \<Rightarrow> ('v \<times> int) list \<Rightarrow> 'v search \<Rightarrow> 'v scan result" where
  "scan_items sink current [] s = Some (Inr (Next s))"
| "scan_items sink current ((neighbor, capacity) # rest) s =
     (if capacity > 0 \<and> s_parent s neighbor = None
      then (case s_min_capacity s current of
              None \<Rightarrow> Some (Inl KeyError)
            | Some mc \<Rightarrow>
               (let s1 = s\<lparr>s_parent := (s_parent s)(neighbor \<mapsto> Some current),
                           s_min_capacity := (s_min_capacity s)(neighbor \<mapsto> Fin (py_min mc capacity))\<rparr>
                in if neighbor = sink
                   then (case reconstruct_path (s_parent s1) (Some sink) [] of
                           None \<Rightarrow> None
                         | Some (Inl e) \<Rightarrow> Some (Inl e)
                         | Some (Inr path) \<Rightarrow> Some (Inr (Return (rev path) (py_min mc capacity))))
                   else scan_items sink current rest (s1\<lparr>s_queue := s_queue s1 @ [neighbor]\<rparr>)))
      else scan_items sink current rest s)"

partial_function (option) augmenting_while ::
  "'v \<Rightarrow> 'v search \<Rightarrow> (('v list \<times> int) option \<times> 'v residual) result" where
  "augmenting_while sink s =
     (case s_queue s of
        [] \<Rightarrow> Some (Inr (None, s_residual s))
      | current # q \<Rightarrow>
         (case dd_getitem [] current (s_residual s) of (items, r) \<Rightarrow>
            (case scan_items sink current items (s\<lparr>s_queue := q, s_residual := r\<rparr>) of
               None \<Rightarrow> None
             | Some (Inl e) \<Rightarrow> Some (Inl e)
             | Some (Inr (Return path m)) \<Rightarrow> Some (Inr (Some (path, m), r))
             | Some (Inr (Next s')) \<Rightarrow> augmenting_while sink s')))"

declare augmenting_while.simps [code]

definition bfs_augmenting_path ::
  "'v residual \<Rightarrow> 'v \<Rightarrow> 'v \<Rightarrow> (('v list \<times> int) option \<times> 'v residual) result" where
  "bfs_augmenting_path r source sink =
     augmenting_while sink \<lparr>s_residual = r, s_parent = [source \<mapsto> None],
                      s_min_capacity = [source \<mapsto> Infinity], s_queue = [source]\<rparr>"

definition res_add :: "'v \<Rightarrow> 'v \<Rightarrow> int \<Rightarrow> 'v residual \<Rightarrow> py_error + 'v residual" where
  "res_add u v d r =
     (case dd_getitem [] u r of (inner, r1) \<Rightarrow>
        (case map_of inner v of
           None \<Rightarrow> Inl KeyError
         | Some x \<Rightarrow> Inr (AList.update u (AList.update v (x + d) inner) r1)))"

fun augment :: "'v list \<Rightarrow> int \<Rightarrow> 'v residual \<times> 'v residual \<Rightarrow> py_error + 'v residual \<times> 'v residual" where
  "augment (u # v # rest) m (r, fl) =
     (case res_add u v (- m) r of Inl e \<Rightarrow> Inl e | Inr r1 \<Rightarrow>
     (case res_add v u m r1 of Inl e \<Rightarrow> Inl e | Inr r2 \<Rightarrow>
     (case res_add u v m fl of Inl e \<Rightarrow> Inl e | Inr fl1 \<Rightarrow>
        augment (v # rest) m (r2, fl1))))"
| "augment path m s = Inr s"

fun init_flow_keys :: "'v \<Rightarrow> 'v list \<Rightarrow> 'v residual \<Rightarrow> 'v residual" where
  "init_flow_keys vertex [] fl = fl"
| "init_flow_keys vertex (neighbor # rest) fl = init_flow_keys vertex rest (res_setitem vertex neighbor 0 fl)"

fun init_flow_network :: "'v list \<Rightarrow> 'v residual \<times> 'v residual \<Rightarrow> 'v residual \<times> 'v residual" where
  "init_flow_network [] (r, fl) = (r, fl)"
| "init_flow_network (vertex # rest) (r, fl) =
     (case dd_getitem [] vertex r of (inner, r1) \<Rightarrow>
        init_flow_network rest (r1, init_flow_keys vertex (map fst inner) fl))"

partial_function (option) ff_while ::
  "'v \<Rightarrow> 'v \<Rightarrow> int \<times> 'v residual \<times> 'v residual \<Rightarrow> (int \<times> 'v residual \<times> 'v residual) result" where
  "ff_while source sink st =
     (case st of (max_flow, fl, r) \<Rightarrow>
       (case bfs_augmenting_path r source sink of
          None \<Rightarrow> None
        | Some (Inl e) \<Rightarrow> Some (Inl e)
        | Some (Inr (None, r1)) \<Rightarrow> Some (Inr (max_flow, fl, r1))
        | Some (Inr (Some (path, m), r1)) \<Rightarrow>
           (case augment path m (r1, fl) of
              Inl e \<Rightarrow> Some (Inl e)
            | Inr (r2, fl2) \<Rightarrow> ff_while source sink (max_flow + m, fl2, r2))))"

declare ff_while.simps [code]

definition ford_fulkerson ::
  "'v max_flow \<Rightarrow> 'v \<Rightarrow> 'v \<Rightarrow> ((int \<times> 'v residual) \<times> 'v max_flow) result" where
  "ford_fulkerson mf source sink =
     (case init_flow_network (mf_vertices mf) (residual_graph mf, []) of (r, fl) \<Rightarrow>
        (case ff_while source sink (0, fl, r) of
           None \<Rightarrow> None
         | Some (Inl e) \<Rightarrow> Some (Inl e)
         | Some (Inr (max_flow, fl', r')) \<Rightarrow> Some (Inr ((max_flow, fl'), mf\<lparr>residual_graph := r'\<rparr>))))"


section \<open>advanced_graph_algorithms.py: class AdvancedGraphAlgorithms\<close>



subsection \<open>_reverse_graph\<close>




subsection \<open>_dfs_first_pass\<close>

function dfs_first_pass :: "'v \<Rightarrow> 'v adjacency \<times> 'v set \<times> 'v list \<Rightarrow> 'v adjacency \<times> 'v set \<times> 'v list"
  and dfs_first_pass_for :: "('v \<times> int) list \<Rightarrow> 'v adjacency \<times> 'v set \<times> 'v list \<Rightarrow> 'v adjacency \<times> 'v set \<times> 'v list"
where
  "dfs_first_pass vertex (a, seen, order) =
     (case dd_getitem [] vertex a of (nbrs, a') \<Rightarrow>
        (case dfs_first_pass_for nbrs (a', insert vertex seen, order) of
           (a'', seen'', order'') \<Rightarrow> (a'', seen'', order'' @ [vertex])))"
| "dfs_first_pass_for [] s = s"
| "dfs_first_pass_for ((neighbor, w) # rest) (a, seen, order) =
     (if neighbor \<notin> seen
      then dfs_first_pass_for rest (dfs_first_pass neighbor (a, seen, order))
      else dfs_first_pass_for rest (a, seen, order))"
  by pat_completeness auto

lemma dfs_first_pass_grows_dom:
  "dfs_first_pass_dfs_first_pass_for_dom (Inl (v, s)) \<Longrightarrow>
     fst (snd s) \<subseteq> fst (snd (dfs_first_pass v s))
     \<and> adj_neighbors (fst (dfs_first_pass v s)) = adj_neighbors (fst s)"
  "dfs_first_pass_dfs_first_pass_for_dom (Inr (nbrs, s)) \<Longrightarrow>
     fst (snd s) \<subseteq> fst (snd (dfs_first_pass_for nbrs s))
     \<and> adj_neighbors (fst (dfs_first_pass_for nbrs s)) = adj_neighbors (fst s)"
proof (induction v s and nbrs s rule: dfs_first_pass_dfs_first_pass_for.pinduct)
  case (1 vertex a seen order)
  obtain nbrs a' where g: "dd_getitem [] vertex a = (nbrs, a')"
    by (cases "dd_getitem [] vertex a")
  then have "adj_neighbors a' = adj_neighbors a"
    using adj_neighbors_dd_getitem[of vertex a] by simp
  with 1(2)[OF g[symmetric]] show ?case
    by (auto simp: dfs_first_pass.psimps[OF 1(1)] g split: prod.splits)
next
  case (2 s)
  then show ?case by (simp add: dfs_first_pass_for.psimps)
next
  case (3 neighbor w rest a seen order)
  show ?case
  proof (cases "neighbor \<in> seen")
    case True
    with 3(4) show ?thesis by (simp add: dfs_first_pass_for.psimps(2)[OF 3(1)])
  next
    case False
    from 3(2)[OF False] 3(3)[OF False] False show ?thesis
      by (auto simp: dfs_first_pass_for.psimps(2)[OF 3(1)])
  qed
qed

definition dfs_measure ::
  "('v \<times> 'v adjacency \<times> 'v set \<times> 'x + ('v \<times> int) list \<times> 'v adjacency \<times> 'v set \<times> 'x) rel" where
  "dfs_measure = (\<lambda>x. case x of
          Inl (v, a, seen, r) \<Rightarrow> card (adj_neighbors a - insert v seen)
        | Inr (nbrs, a, seen, r) \<Rightarrow> card ((adj_neighbors a \<union> fst ` set nbrs) - seen))
    <*mlex*> (\<lambda>x. case x of Inl _ \<Rightarrow> 1 | Inr _ \<Rightarrow> (0::nat))
    <*mlex*> measure (\<lambda>x. case x of Inl _ \<Rightarrow> 0 | Inr (nbrs, _) \<Rightarrow> length nbrs)"

lemma wf_dfs_measure: "wf dfs_measure"
  by (simp add: dfs_measure_def wf_mlex)

lemma dfs_measure_enter:
  "dd_getitem [] vertex a = (nbrs, a') \<Longrightarrow>
     (Inr (nbrs, a', insert vertex seen, r'), Inl (vertex, a, seen, r)) \<in> dfs_measure"
proof -
  assume g: "dd_getitem [] vertex a = (nbrs, a')"
  then have nb: "nbrs = adj_of a vertex" and a': "a' = snd (dd_getitem [] vertex a)"
    using dd_getitem_adj[of vertex a] by simp_all
  have "adj_neighbors a' \<union> fst ` set nbrs = adj_neighbors a"
    using adj_of_neighbors[of a vertex] by (auto simp: nb a' adj_neighbors_dd_getitem)
  then show ?thesis by (simp add: dfs_measure_def mlex_iff)
qed

lemma dfs_measure_call:
  "neighbor \<notin> seen \<Longrightarrow>
     (Inl (neighbor, a, seen, r'), Inr ((neighbor, w) # rest, a, seen, r)) \<in> dfs_measure"
proof -
  assume "neighbor \<notin> seen"
  then have "adj_neighbors a - insert neighbor seen \<subset> adj_neighbors a \<union> fst ` set ((neighbor, w) # rest) - seen"
    by auto
  then have "card (adj_neighbors a - insert neighbor seen) < card (adj_neighbors a \<union> fst ` set ((neighbor, w) # rest) - seen)"
    by (intro psubset_card_mono) (simp_all add: finite_adj_neighbors)
  then show ?thesis by (simp add: dfs_measure_def mlex_iff)
qed

lemma dfs_measure_next:
  "seen \<subseteq> seen' \<Longrightarrow> adj_neighbors a' = adj_neighbors a \<Longrightarrow>
     (Inr (rest, a', seen', r'), Inr ((neighbor, w) # rest, a, seen, r)) \<in> dfs_measure"
proof -
  assume g: "seen \<subseteq> seen'" "adj_neighbors a' = adj_neighbors a"
  have "card (adj_neighbors a' \<union> fst ` set rest - seen') \<le> card (adj_neighbors a \<union> fst ` set ((neighbor, w) # rest) - seen)"
    using g by (intro card_mono) (auto simp: finite_adj_neighbors)
  then show ?thesis by (auto simp: dfs_measure_def mlex_iff)
qed

termination dfs_first_pass
proof (relation dfs_measure, goal_cases)
  case 1
  show ?case by (rule wf_dfs_measure)
next
  case (2 vertex a seen order nbrs a')
  then show ?case by (intro dfs_measure_enter) simp
next
  case (3 neighbor w rest a seen order)
  then show ?case by (intro dfs_measure_call)
next
  case (4 neighbor w rest a seen order)
  obtain a' seen' order' where r: "dfs_first_pass neighbor (a, seen, order) = (a', seen', order')"
    by (cases "dfs_first_pass neighbor (a, seen, order)")
  from dfs_first_pass_grows_dom(1)[OF 4(2)] r have "seen \<subseteq> seen'" "adj_neighbors a' = adj_neighbors a"
    by simp_all
  then show ?case unfolding r by (rule dfs_measure_next)
next
  case (5 neighbor w rest a seen order)
  show ?case by (rule dfs_measure_next) simp_all
qed


subsection \<open>_dfs_second_pass\<close>

function dfs_second_pass :: "'v \<Rightarrow> 'v adjacency \<times> 'v set \<times> 'v list \<Rightarrow> 'v adjacency \<times> 'v set \<times> 'v list"
  and dfs_second_pass_for :: "('v \<times> int) list \<Rightarrow> 'v adjacency \<times> 'v set \<times> 'v list \<Rightarrow> 'v adjacency \<times> 'v set \<times> 'v list"
where
  "dfs_second_pass vertex (reversed_adj, seen, component) =
     (case dd_getitem [] vertex reversed_adj of (nbrs, reversed_adj') \<Rightarrow>
        dfs_second_pass_for nbrs (reversed_adj', insert vertex seen, component @ [vertex]))"
| "dfs_second_pass_for [] s = s"
| "dfs_second_pass_for ((neighbor, w) # rest) (reversed_adj, seen, component) =
     (if neighbor \<notin> seen
      then dfs_second_pass_for rest (dfs_second_pass neighbor (reversed_adj, seen, component))
      else dfs_second_pass_for rest (reversed_adj, seen, component))"
  by pat_completeness auto

lemma dfs_second_pass_grows_dom:
  "dfs_second_pass_dfs_second_pass_for_dom (Inl (v, s)) \<Longrightarrow>
     fst (snd s) \<subseteq> fst (snd (dfs_second_pass v s))
     \<and> adj_neighbors (fst (dfs_second_pass v s)) = adj_neighbors (fst s)"
  "dfs_second_pass_dfs_second_pass_for_dom (Inr (nbrs, s)) \<Longrightarrow>
     fst (snd s) \<subseteq> fst (snd (dfs_second_pass_for nbrs s))
     \<and> adj_neighbors (fst (dfs_second_pass_for nbrs s)) = adj_neighbors (fst s)"
proof (induction v s and nbrs s rule: dfs_second_pass_dfs_second_pass_for.pinduct)
  case (1 vertex a seen component)
  obtain nbrs a' where g: "dd_getitem [] vertex a = (nbrs, a')"
    by (cases "dd_getitem [] vertex a")
  then have "adj_neighbors a' = adj_neighbors a"
    using adj_neighbors_dd_getitem[of vertex a] by simp
  with 1(2)[OF g[symmetric]] show ?case
    by (auto simp: dfs_second_pass.psimps[OF 1(1)] g)
next
  case (2 s)
  then show ?case by (simp add: dfs_second_pass_for.psimps)
next
  case (3 neighbor w rest a seen component)
  show ?case
  proof (cases "neighbor \<in> seen")
    case True
    with 3(4) show ?thesis by (simp add: dfs_second_pass_for.psimps(2)[OF 3(1)])
  next
    case False
    from 3(2)[OF False] 3(3)[OF False] False show ?thesis
      by (auto simp: dfs_second_pass_for.psimps(2)[OF 3(1)])
  qed
qed

termination dfs_second_pass
proof (relation dfs_measure, goal_cases)
  case 1
  show ?case by (rule wf_dfs_measure)
next
  case (2 vertex a seen component nbrs a')
  then show ?case by (intro dfs_measure_enter) simp
next
  case (3 neighbor w rest a seen component)
  then show ?case by (intro dfs_measure_call)
next
  case (4 neighbor w rest a seen component)
  obtain a' seen' component' where r: "dfs_second_pass neighbor (a, seen, component) = (a', seen', component')"
    by (cases "dfs_second_pass neighbor (a, seen, component)")
  from dfs_second_pass_grows_dom(1)[OF 4(2)] r have "seen \<subseteq> seen'" "adj_neighbors a' = adj_neighbors a"
    by simp_all
  then show ?case unfolding r by (rule dfs_measure_next)
next
  case (5 neighbor w rest a seen component)
  show ?case by (rule dfs_measure_next) simp_all
qed

subsection \<open>find_scc\<close>




subsection \<open>_dfs_topological and topological_sort\<close>

function dfs_topological ::
    "'v \<Rightarrow> 'v adjacency \<times> 'v set \<times> 'v set \<times> 'v list \<Rightarrow> bool \<times> 'v adjacency \<times> 'v set \<times> 'v set \<times> 'v list"
  and dfs_topological_for ::
    "'v \<Rightarrow> ('v \<times> int) list \<Rightarrow> 'v adjacency \<times> 'v set \<times> 'v set \<times> 'v list \<Rightarrow> bool \<times> 'v adjacency \<times> 'v set \<times> 'v set \<times> 'v list"
where
  "dfs_topological vertex (a, seen, temp, order) =
     (case dd_getitem [] vertex a of (nbrs, a') \<Rightarrow>
        dfs_topological_for vertex nbrs (a', insert vertex seen, insert vertex temp, order))"
| "dfs_topological_for vertex [] (a, seen, temp, order) =
     (False, a, seen, temp - {vertex}, vertex # order)"
| "dfs_topological_for vertex ((neighbor, w) # rest) (a, seen, temp, order) =
     (if neighbor \<notin> seen
      then (case dfs_topological neighbor (a, seen, temp, order) of
              (cycle, s') \<Rightarrow> if cycle then (True, s') else dfs_topological_for vertex rest s')
      else if neighbor \<in> temp then (True, a, seen, temp, order)
      else dfs_topological_for vertex rest (a, seen, temp, order))"
  by pat_completeness auto

lemma dfs_topological_grows_dom:
  "dfs_topological_dfs_topological_for_dom (Inl (v, s)) \<Longrightarrow>
     fst (snd s) \<subseteq> fst (snd (snd (dfs_topological v s)))
     \<and> adj_neighbors (fst (snd (dfs_topological v s))) = adj_neighbors (fst s)"
  "dfs_topological_dfs_topological_for_dom (Inr (u, nbrs, s)) \<Longrightarrow>
     fst (snd s) \<subseteq> fst (snd (snd (dfs_topological_for u nbrs s)))
     \<and> adj_neighbors (fst (snd (dfs_topological_for u nbrs s))) = adj_neighbors (fst s)"
proof (induction v s and u nbrs s rule: dfs_topological_dfs_topological_for.pinduct)
  case (1 vertex a seen temp order)
  obtain nbrs a' where g: "dd_getitem [] vertex a = (nbrs, a')"
    by (cases "dd_getitem [] vertex a")
  then have "adj_neighbors a' = adj_neighbors a"
    using adj_neighbors_dd_getitem[of vertex a] by simp
  with 1(2)[OF g[symmetric]] show ?case
    by (auto simp: dfs_topological.psimps[OF 1(1)] g)
next
  case (2 vertex a seen temp order)
  then show ?case by (simp add: dfs_topological_for.psimps)
next
  case (3 vertex neighbor w rest a seen temp order)
  show ?case
  proof (cases "neighbor \<in> seen")
    case True
    with 3(4) show ?thesis by (simp add: dfs_topological_for.psimps(2)[OF 3(1)])
  next
    case False
    obtain cycle s' where r: "dfs_topological neighbor (a, seen, temp, order) = (cycle, s')"
      by (cases "dfs_topological neighbor (a, seen, temp, order)")
    from 3(2)[OF False] 3(3)[OF False r[symmetric]] False r show ?thesis
      by (auto simp: dfs_topological_for.psimps(2)[OF 3(1)])
  qed
qed

termination dfs_topological
proof (relation "inv_image dfs_measure (\<lambda>x. case x of Inl (v, s) \<Rightarrow> Inl (v, s) | Inr (u, nbrs, s) \<Rightarrow> Inr (nbrs, s))", goal_cases)
  case 1
  show ?case by (intro wf_inv_image wf_dfs_measure)
next
  case (2 vertex a seen temp order nbrs a')
  then show ?case using dfs_measure_enter[of vertex a nbrs a'] by simp
next
  case (3 vertex neighbor w rest a seen temp order)
  then show ?case using dfs_measure_call[of neighbor seen] by simp
next
  case (4 vertex neighbor w rest a seen temp order cycle s')
  obtain a' seen' r' where s': "s' = (a', seen', r')" by (cases s') auto
  from 4 have dom: "dfs_topological_dfs_topological_for_dom (Inl (neighbor, a, seen, temp, order))"
    and r: "dfs_topological neighbor (a, seen, temp, order) = (cycle, s')" by simp_all
  from dfs_topological_grows_dom(1)[OF dom] s' have "seen \<subseteq> seen'" "adj_neighbors a' = adj_neighbors a"
    by (simp_all add: r)
  then show ?case using dfs_measure_next[of seen seen' a' a] by (simp add: s')
next
  case (5 vertex neighbor w rest a seen temp order)
  show ?case using dfs_measure_next[of seen seen a a] by simp
qed




section \<open>minimum_spanning_trees.py\<close>

subsection \<open>class DisjointSet\<close>






subsection \<open>class MST\<close>














section \<open>C8: the graph invariant\<close>

text \<open>
  C8. After any sequence of \<^verbatim>\<open>add_vertex\<close> and \<^verbatim>\<open>add_edge\<close> calls on a new graph, every
  endpoint of an edge of the edge list, every key of the adjacency mapping and every
  neighbour listed in it is a member of the vertex set.
\<close>

theorem graph_invariant:
  fixes cs :: "'v graph_call list"
  shows "edge_endpoints (build d cs) \<union> adj_keys (adj_list (build d cs))
     \<union> adj_neighbors (adj_list (build d cs)) \<subseteq> vertices (build d cs)"
  by (rule build_closed)

theorem graph_invariant_witness:
  "edge_endpoints (build False [Add_vertex (1::nat), Add_edge 2 3 5]) = {2, 3}
   \<and> adj_list (build False [Add_vertex (1::nat), Add_edge 2 3 5]) = [(2, [(3, 5)]), (3, [(2, 5)])]
   \<and> {2, 3} \<subseteq> vertices (build False [Add_vertex (1::nat), Add_edge 2 3 5])"
  using graph_invariant[of False "[Add_vertex (1::nat), Add_edge 2 3 5]"]
  by (simp add: build_def Graph_def add_vertex_def add_edge_def adj_append_def dd_getitem_def
      edge_endpoints_def adj_keys_def adj_neighbors_def)


section \<open>C1: the residual graph after construction\<close>

text \<open>A directed graph with the two antiparallel edges A\<rightarrow>B (capacity 10) and B\<rightarrow>A (capacity 4).\<close>

definition antiparallel :: "string graph" where
  "antiparallel = build True [Add_edge ''A'' ''B'' 10, Add_edge ''B'' ''A'' 4]"

text \<open>
  C1. Constructing a \<^verbatim>\<open>MaxFlow\<close> should leave \<open>residual[u][v] = c\<close> for every edge u\<rightarrow>v of
  capacity c, the reverse entry being set to 0 only when absent. On \<open>antiparallel\<close> the
  code does not: whichever vertex is visited second writes 0 over the capacity of the edge
  seeded from the first, in either order of the vertex list.
\<close>

theorem initialize_residual_graph_overwrites:
  "adj_list antiparallel = [(''A'', [(''B'', 10)]), (''B'', [(''A'', 4)])]
   \<and> residual (MaxFlow antiparallel [''A'', ''B'']) ''A'' ''B'' = Some 0
   \<and> residual (MaxFlow antiparallel [''B'', ''A'']) ''B'' ''A'' = Some 0"
  by code_simp

section \<open>C2: the flow network returned by ford_fulkerson\<close>

text \<open>
  Nine edges of capacity 1 on the vertices 0..7, source 0 and sink 3. The only shortest
  path from 0 to 3 is 0\<rightarrow>1\<rightarrow>2\<rightarrow>3; once it is saturated the only augmenting path left is
  0\<rightarrow>4\<rightarrow>5\<rightarrow>2\<rightarrow>1\<rightarrow>6\<rightarrow>7\<rightarrow>3, which crosses the edge 1\<rightarrow>2 backwards.
\<close>

definition crossing :: "nat graph" where
  "crossing = build True
     [Add_edge 0 1 1, Add_edge 1 2 1, Add_edge 2 3 1, Add_edge 0 4 1, Add_edge 4 5 1,
      Add_edge 5 2 1, Add_edge 1 6 1, Add_edge 6 7 1, Add_edge 7 3 1]"

definition max_flow_value :: "((int \<times> 'v residual) \<times> 'v max_flow) result \<Rightarrow> int option" where
  "max_flow_value r = (case r of Some (Inr ((value, fl), mf)) \<Rightarrow> Some value | _ \<Rightarrow> None)"

definition flow_on :: "((int \<times> 'v residual) \<times> 'v max_flow) result \<Rightarrow> 'v \<Rightarrow> 'v \<Rightarrow> int option" where
  "flow_on r u v =
     (case r of
        Some (Inr ((value, fl), mf)) \<Rightarrow>
          (case map_of fl u of None \<Rightarrow> None | Some inner \<Rightarrow> map_of inner v)
      | _ \<Rightarrow> None)"

text \<open>
  C2. The flow recorded on a vertex pair should lie between 0 and the capacity of its
  edge. On \<open>crossing\<close> the code returns flow value 2 and records one unit of flow on the
  pair (2, 1), which is not an edge of the graph, while the pair (1, 2) keeps its unit:
  pushing flow back along a residual reverse edge is added to the reverse pair instead of
  being taken off the forward edge.
\<close>

theorem ford_fulkerson_flow_on_reverse_pair:
  "max_flow_value (ford_fulkerson (MaxFlow crossing [0, 1, 2, 3, 4, 5, 6, 7]) 0 3) = Some 2
   \<and> flow_on (ford_fulkerson (MaxFlow crossing [0, 1, 2, 3, 4, 5, 6, 7]) 0 3) 2 1 = Some 1
   \<and> flow_on (ford_fulkerson (MaxFlow crossing [0, 1, 2, 3, 4, 5, 6, 7]) 0 3) 1 2 = Some 1
   \<and> filter (\<lambda>(u, v, w). u = 2 \<and> v = 1) (edges crossing) = []"
  by code_simp

section \<open>C3: dijkstra on the graph of main\<close>

definition main_graph :: "string graph" where
  "main_graph = build True
     [Add_edge ''A'' ''B'' 4, Add_edge ''A'' ''C'' 2, Add_edge ''B'' ''C'' 1, Add_edge ''B'' ''D'' 5,
      Add_edge ''C'' ''D'' 8, Add_edge ''C'' ''E'' 10, Add_edge ''D'' ''E'' 2, Add_edge ''E'' ''D'' 7]"

definition distance_to :: "('v dijkstra_result \<times> 'v graph) result \<Rightarrow> 'v \<Rightarrow> num option" where
  "distance_to r v = (case r of Some (Inr (Distances_paths ds ps, g)) \<Rightarrow> ds v | _ \<Rightarrow> None)"

definition path_to :: "('v dijkstra_result \<times> 'v graph) result \<Rightarrow> 'v \<Rightarrow> 'v list option" where
  "path_to r v = (case r of Some (Inr (Distances_paths ds ps, g)) \<Rightarrow> ps v | _ \<Rightarrow> None)"

text \<open>
  The claim as stated, that \<^verbatim>\<open>dijkstra('A')\<close> yields distance 12 for E, is false.
\<close>

theorem dijkstra_main_not_12:
  "distance_to (dijkstra main_graph ''A'') ''E'' \<noteq> Some (Fin 12)"
  by code_simp

text \<open>
  C3 (amended). On the directed graph with edges A\<rightarrow>B(4), A\<rightarrow>C(2), B\<rightarrow>C(1), B\<rightarrow>D(5), C\<rightarrow>D(8),
  C\<rightarrow>E(10), D\<rightarrow>E(2), E\<rightarrow>D(7), \<^verbatim>\<open>dijkstra('A')\<close> yields distance 11 for E, along the path
  A, B, D, E; the distances of A, B, C, D are 0, 4, 2, 9.
\<close>

theorem dijkstra_main:
  "distance_to (dijkstra main_graph ''A'') ''E'' = Some (Fin 11)
   \<and> path_to (dijkstra main_graph ''A'') ''E'' = Some [''A'', ''B'', ''D'', ''E'']
   \<and> map (distance_to (dijkstra main_graph ''A'')) [''A'', ''B'', ''C'', ''D''] = [Some (Fin 0), Some (Fin 4), Some (Fin 2), Some (Fin 9)]"
  by code_simp

section \<open>C9: a start vertex that is not in the graph\<close>

text \<open>
  C9. When the start vertex is not in the vertex set, \<^verbatim>\<open>bfs\<close> and \<^verbatim>\<open>dfs\<close> return the empty
  list and \<^verbatim>\<open>dijkstra\<close> returns the empty dictionary; none of them raises, and the graph
  is left as it was.
\<close>

theorem invalid_start_vertex:
  assumes "start_vertex \<notin> vertices g"
  shows "bfs g start_vertex = ([], g) \<and> dfs g start_vertex = ([], g)
     \<and> dijkstra g start_vertex = Some (Inr (Empty_dict, g))"
  using assms by (simp add: bfs_def dfs_def dijkstra_def)

theorem invalid_start_vertex_witness:
  "bfs main_graph ''Z'' = ([], main_graph) \<and> dfs main_graph ''Z'' = ([], main_graph)
     \<and> dijkstra main_graph ''Z'' = Some (Inr (Empty_dict, main_graph))"
proof -
  have "''Z'' \<notin> vertices main_graph"
    by (simp add: main_graph_def build_def Graph_def add_edge_def)
  then show ?thesis by (rule invalid_start_vertex)
qed

section \<open>C10: distances and paths of dijkstra agree\<close>

text \<open>
  A path with a weight: the vertices are joined by edges of the adjacency, one edge for
  each step, and the weights of the chosen edges add up to \<open>d\<close>.
\<close>

fun path_weight :: "('v \<Rightarrow> ('v \<times> int) list) \<Rightarrow> 'v list \<Rightarrow> int \<Rightarrow> bool" where
  "path_weight A [] d = False"
| "path_weight A [v] d = (d = 0)"
| "path_weight A (u # v # rest) d =
     list_ex (\<lambda>(v', w). v' = v \<and> path_weight A (v # rest) (d - w)) (A u)"

definition consistent_path :: "('v \<Rightarrow> ('v \<times> int) list) \<Rightarrow> 'v \<Rightarrow> 'v \<Rightarrow> 'v list \<Rightarrow> int \<Rightarrow> bool" where
  "consistent_path A start v p d = (p \<noteq> [] \<and> hd p = start \<and> last p = v \<and> path_weight A p d)"

lemma path_weight_snoc:
  "path_weight A p d \<Longrightarrow> (v, w) \<in> set (A (last p)) \<Longrightarrow> path_weight A (p @ [v]) (d + w)"
proof (induction A p d rule: path_weight.induct)
  case (1 A d)
  then show ?case by simp
next
  case (2 A u d)
  then show ?case by (auto simp: list_ex_iff)
next
  case (3 A u x rest d)
  from 3(2) obtain w' where w': "(x, w') \<in> set (A u)" "path_weight A (x # rest) (d - w')"
    by (auto simp: list_ex_iff)
  from 3(1)[OF w'(1) _ w'(2)] 3(3) have "path_weight A ((x # rest) @ [v]) (d - w' + w)"
    by simp
  then have "path_weight A (x # rest @ [v]) (d + w - w')"
    by (simp add: algebra_simps)
  with w'(1) show ?case by (auto simp: list_ex_iff)
qed

lemma consistent_path_snoc:
  "consistent_path A start u p d \<Longrightarrow> (v, w) \<in> set (A u) \<Longrightarrow> consistent_path A start v (p @ [v]) (d + w)"
  unfolding consistent_path_def using path_weight_snoc[of A p d v w] by (cases p) auto

subsection \<open>The loop invariant and the measure of the loop\<close>

definition ninf :: "'v set \<Rightarrow> 'v dijkstra_state \<Rightarrow> nat" where
  "ninf N s = card {v \<in> N. distances s v = Some Infinity}"

definition dsum :: "'v set \<Rightarrow> 'v dijkstra_state \<Rightarrow> nat" where
  "dsum N s = (\<Sum>v\<in>N. case distances s v of Some (Fin d) \<Rightarrow> nat d | _ \<Rightarrow> 0)"

definition dj_inv :: "('v \<Rightarrow> ('v \<times> int) list) \<Rightarrow> 'v set \<Rightarrow> 'v \<Rightarrow> 'v dijkstra_state \<Rightarrow> bool" where
  "dj_inv A V start s =
     (adj_of (dj_adj s) = A
      \<and> (\<forall>v\<in>V. distances s v \<noteq> None \<and> paths s v \<noteq> None)
      \<and> (\<forall>(d, v)\<in>set (priority_queue s). \<exists>d'. distances s v = Some (Fin d') \<and> d' \<le> d)
      \<and> (\<forall>v d. distances s v = Some (Fin d) \<longrightarrow>
            0 \<le> d \<and> (\<exists>p. paths s v = Some p \<and> consistent_path A start v p d))
      \<and> (\<forall>v. distances s v = Some Infinity \<longrightarrow> paths s v = Some []))"

lemma dj_inv_fin:
  "dj_inv A V start s \<Longrightarrow> distances s v = Some (Fin d) \<Longrightarrow>
     0 \<le> d \<and> (\<exists>p. paths s v = Some p \<and> consistent_path A start v p d)"
  unfolding dj_inv_def by blast

lemma dj_inv_dom: "dj_inv A V start s \<Longrightarrow> v \<in> V \<Longrightarrow> \<exists>dv. distances s v = Some dv"
  unfolding dj_inv_def by blast

lemma dj_inv_queue:
  "dj_inv A V start s \<Longrightarrow> (d, v) \<in> set (priority_queue s) \<Longrightarrow>
     \<exists>d'. distances s v = Some (Fin d') \<and> d' \<le> d"
  unfolding dj_inv_def by blast

definition progress :: "'v set \<Rightarrow> 'v dijkstra_state \<Rightarrow> 'v dijkstra_state \<Rightarrow> bool" where
  "progress N s s' =
     ((distances s' = distances s \<and> priority_queue s' = priority_queue s)
      \<or> ((ninf N s', dsum N s'), (ninf N s, dsum N s)) \<in> less_than <*lex*> less_than)"

lemma progress_refl: "progress N s s"
  by (simp add: progress_def)

lemma progress_step:
  assumes "((ninf N s1, dsum N s1), (ninf N s, dsum N s)) \<in> less_than <*lex*> less_than"
    and "progress N s1 s'"
  shows "((ninf N s', dsum N s'), (ninf N s, dsum N s)) \<in> less_than <*lex*> less_than"
proof -
  from assms(2) consider "distances s' = distances s1" | "((ninf N s', dsum N s'), (ninf N s1, dsum N s1)) \<in> less_than <*lex*> less_than"
    by (auto simp: progress_def)
  then show ?thesis
  proof cases
    case 1
    then have "ninf N s' = ninf N s1" "dsum N s' = dsum N s1" by (simp_all add: ninf_def dsum_def)
    with assms(1) show ?thesis by simp
  next
    case 2
    with assms(1) show ?thesis by auto
  qed
qed

lemma relax_one_measure:
  assumes fin: "finite N" and n: "n \<in> N" and dn: "distances s n = Some dn"
    and lt: "int_less_num x dn" and x0: "0 \<le> x"
    and pos: "\<forall>v d. distances s v = Some (Fin d) \<longrightarrow> 0 \<le> d"
    and s': "distances s' = (distances s)(n \<mapsto> Fin x)"
  shows "((ninf N s', dsum N s'), (ninf N s, dsum N s)) \<in> less_than <*lex*> less_than"
proof (cases dn)
  case Infinity
  have "{v \<in> N. distances s' v = Some Infinity} \<subset> {v \<in> N. distances s v = Some Infinity}"
    using n dn Infinity by (auto simp: s')
  then have "ninf N s' < ninf N s"
    unfolding ninf_def by (intro psubset_card_mono) (simp_all add: fin)
  then show ?thesis by simp
next
  case (Fin y)
  with lt have xy: "x < y" by simp
  have eq: "{v \<in> N. distances s' v = Some Infinity} = {v \<in> N. distances s v = Some Infinity}"
    using dn Fin by (auto simp: s')
  have "dsum N s' < dsum N s"
    unfolding dsum_def
  proof (rule sum_strict_mono_ex1[OF fin])
    show "\<forall>v\<in>N. (case distances s' v of None \<Rightarrow> 0 | Some (Fin d) \<Rightarrow> nat d | Some Infinity \<Rightarrow> 0)
        \<le> (case distances s v of None \<Rightarrow> 0 | Some (Fin d) \<Rightarrow> nat d | Some Infinity \<Rightarrow> 0)"
      using dn Fin xy x0 by (auto simp: s')
    show "\<exists>v\<in>N. (case distances s' v of None \<Rightarrow> 0 | Some (Fin d) \<Rightarrow> nat d | Some Infinity \<Rightarrow> 0)
        < (case distances s v of None \<Rightarrow> 0 | Some (Fin d) \<Rightarrow> nat d | Some Infinity \<Rightarrow> 0)"
      using dn Fin xy x0 n by (intro bexI[of _ n]) (auto simp: s')
  qed
  with eq show ?thesis by (simp add: ninf_def)
qed

lemma relax_invariant:
  assumes nb: "\<forall>u. fst ` set (A u) \<subseteq> V \<inter> N" and nn: "\<forall>u v w. (v, w) \<in> set (A u) \<longrightarrow> 0 \<le> w"
    and fin: "finite N"
  shows "dj_inv A V start s \<Longrightarrow> distances s u = Some (Fin cd) \<Longrightarrow> set nbrs \<subseteq> set (A u) \<Longrightarrow>
    \<exists>s'. relax cd u nbrs s = Inr s' \<and> dj_inv A V start s' \<and> distances s' u = Some (Fin cd)
       \<and> progress N s s'"
proof (induction nbrs arbitrary: s)
  case Nil
  then show ?case by (simp add: progress_refl)
next
  case (Cons e nbrs)
  obtain n w where e: "e = (n, w)" by (cases e)
  from Cons.prems(3) e have nw: "(n, w) \<in> set (A u)" and rest: "set nbrs \<subseteq> set (A u)" by auto
  from nw nb have nV: "n \<in> V" and nN: "n \<in> N" by force+
  from nn nw have w0: "0 \<le> w" by blast
  note inv = Cons.prems(1)
  from dj_inv_dom[OF inv nV] obtain dn where dn: "distances s n = Some dn" by blast
  from dj_inv_fin[OF inv Cons.prems(2)] obtain pu where
      pu: "paths s u = Some pu" "consistent_path A start u pu cd" and cd0: "0 \<le> cd"
    by blast
  show ?case
  proof (cases "int_less_num (cd + w) dn")
    case False
    with Cons.IH[OF inv Cons.prems(2) rest] dn e show ?thesis by simp
  next
    case True
    define s1 where "s1 = s\<lparr>distances := (distances s)(n \<mapsto> Fin (cd + w)),
                          paths := (paths s)(n \<mapsto> pu @ [n]),
                          priority_queue := heappush (priority_queue s) (cd + w, n)\<rparr>"
    have nu: "n \<noteq> u"
    proof
      assume "n = u"
      with dn Cons.prems(2) have "dn = Fin cd" by simp
      with True w0 show False by simp
    qed
    have cp: "consistent_path A start n (pu @ [n]) (cd + w)"
      using consistent_path_snoc[OF pu(2) nw] .
    have inv1: "dj_inv A V start s1"
      unfolding dj_inv_def
    proof (intro conjI)
      show "adj_of (dj_adj s1) = A" using inv by (simp add: s1_def dj_inv_def)
      show "\<forall>v\<in>V. distances s1 v \<noteq> None \<and> paths s1 v \<noteq> None"
        using inv by (simp add: s1_def dj_inv_def)
      show "\<forall>(d, v)\<in>set (priority_queue s1). \<exists>d'. distances s1 v = Some (Fin d') \<and> d' \<le> d"
      proof (clarify)
        fix d v assume "(d, v) \<in> set (priority_queue s1)"
        then consider "(d, v) = (cd + w, n)" | "(d, v) \<in> set (priority_queue s)"
          by (auto simp: s1_def heappush_def)
        then show "\<exists>d'. distances s1 v = Some (Fin d') \<and> d' \<le> d"
        proof cases
          case 1
          then show ?thesis by (simp add: s1_def)
        next
          case 2
          from dj_inv_queue[OF inv 2] obtain d' where d': "distances s v = Some (Fin d')" "d' \<le> d"
            by blast
          show ?thesis
          proof (cases "v = n")
            case True
            with d' dn \<open>int_less_num (cd + w) dn\<close> show ?thesis by (auto simp: s1_def)
          next
            case False
            with d' show ?thesis by (simp add: s1_def)
          qed
        qed
      qed
      show "\<forall>v d. distances s1 v = Some (Fin d) \<longrightarrow>
            0 \<le> d \<and> (\<exists>p. paths s1 v = Some p \<and> consistent_path A start v p d)"
        using inv cp cd0 w0 by (auto simp: s1_def dj_inv_def)
      show "\<forall>v. distances s1 v = Some Infinity \<longrightarrow> paths s1 v = Some []"
        using inv by (auto simp: s1_def dj_inv_def)
    qed
    have u1: "distances s1 u = Some (Fin cd)"
      using nu Cons.prems(2) by (simp add: s1_def)
    have m1: "((ninf N s1, dsum N s1), (ninf N s, dsum N s)) \<in> less_than <*lex*> less_than"
    proof (rule relax_one_measure[OF fin nN dn True])
      show "0 \<le> cd + w" using cd0 w0 by simp
      show "\<forall>v d. distances s v = Some (Fin d) \<longrightarrow> 0 \<le> d" using inv by (auto simp: dj_inv_def)
      show "distances s1 = (distances s)(n \<mapsto> Fin (cd + w))" by (simp add: s1_def)
    qed
    from Cons.IH[OF inv1 u1 rest] obtain s' where s': "relax cd u nbrs s1 = Inr s'"
      "dj_inv A V start s'" "distances s' u = Some (Fin cd)" "progress N s1 s'" by blast
    have "relax cd u (e # nbrs) s = Inr s'"
      using s'(1) dn True pu(1) by (simp add: e s1_def Let_def)
    moreover have "progress N s s'"
      using progress_step[OF m1 s'(4)] by (simp add: progress_def)
    ultimately show ?thesis using s' by blast
  qed
qed

definition dj_rel :: "'v set \<Rightarrow> ('v dijkstra_state \<times> 'v dijkstra_state) set" where
  "dj_rel N = inv_image ((less_than <*lex*> less_than) <*lex*> less_than)
     (\<lambda>s. ((ninf N s, dsum N s), length (priority_queue s)))"

lemma wf_dj_rel: "wf (dj_rel N)"
  unfolding dj_rel_def by (intro wf_inv_image wf_lex_prod wf_less_than)

lemma dj_inv_queue_subset:
  assumes "dj_inv A V start s" and "set h \<subseteq> set (priority_queue s)" and "adj_of a = A"
  shows "dj_inv A V start (s\<lparr>priority_queue := h, dj_adj := a\<rparr>)"
  using assms unfolding dj_inv_def by simp blast

lemma dijkstra_while_total:
  fixes s :: "('v::linorder) dijkstra_state"
  assumes nb: "\<forall>u. fst ` set (A u) \<subseteq> V \<inter> N" and nn: "\<forall>u v w. (v, w) \<in> set (A u) \<longrightarrow> 0 \<le> w"
    and fin: "finite N"
  shows "dj_inv A V start s \<Longrightarrow> \<exists>s'. dijkstra_while s = Some (Inr s') \<and> dj_inv A V start s'"
proof (induction s rule: wf_induct_rule[OF wf_dj_rel[of N]])
  case (1 s)
  note inv = 1(2)
  show ?case
  proof (cases "priority_queue s = []")
    case True
    then have "dijkstra_while s = Some (Inr s)" by (subst dijkstra_while.simps) simp
    with inv show ?thesis by blast
  next
    case False
    define x where "x = Min (set (priority_queue s))"
    define h where "h = remove1 x (priority_queue s)"
    obtain cd u where x: "x = (cd, u)" by (cases x)
    have xin: "x \<in> set (priority_queue s)"
      unfolding x_def using False by (intro Min_in) simp_all
    have pop: "heappop (priority_queue s) = ((cd, u), h)"
      by (simp add: heappop_def h_def x_def[symmetric] x)
    have len: "length h < length (priority_queue s)"
    proof -
      have "0 < length (priority_queue s)" using False by simp
      then show ?thesis using xin by (simp add: h_def length_remove1)
    qed
    have sub: "set h \<subseteq> set (priority_queue s)"
      unfolding h_def by (rule set_remove1_subset)
    from dj_inv_queue[OF inv xin[unfolded x]] obtain d' where d': "distances s u = Some (Fin d')" "d' \<le> cd"
      by blast
    have A: "adj_of (dj_adj s) = A" using inv by (simp add: dj_inv_def)
    show ?thesis
    proof (cases "d' < cd")
      case True
      define s1 where "s1 = s\<lparr>priority_queue := h\<rparr>"
      have "dj_inv A V start s1"
        using dj_inv_queue_subset[OF inv sub A] by (simp add: s1_def)
      moreover have "(s1, s) \<in> dj_rel N"
        using len by (simp add: dj_rel_def s1_def ninf_def dsum_def)
      ultimately obtain s' where s': "dijkstra_while s1 = Some (Inr s')" "dj_inv A V start s'"
        using 1(1) by blast
      have "dijkstra_while s = dijkstra_while s1"
        using False pop d' True by (subst dijkstra_while.simps) (simp add: s1_def)
      with s' show ?thesis by auto
    next
      case False
      with d' have cd: "d' = cd" by simp
      define a' where "a' = snd (dd_getitem [] u (dj_adj s))"
      have get: "dd_getitem [] u (dj_adj s) = (A u, a')"
        using dd_getitem_adj[of u "dj_adj s"] by (simp add: a'_def A)
      have A': "adj_of a' = A" by (simp add: a'_def adj_of_dd_getitem A)
      define s2 where "s2 = s\<lparr>priority_queue := h, dj_adj := a'\<rparr>"
      have inv2: "dj_inv A V start s2"
        using dj_inv_queue_subset[OF inv sub A'] by (simp add: s2_def)
      have u2: "distances s2 u = Some (Fin cd)" using d' cd by (simp add: s2_def)
      from relax_invariant[OF nb nn fin inv2 u2 subset_refl]
      obtain s3 where s3: "relax cd u (A u) s2 = Inr s3" "dj_inv A V start s3" "progress N s2 s3"
        by blast
      have m2: "ninf N s2 = ninf N s" "dsum N s2 = dsum N s" "priority_queue s2 = h"
        by (simp_all add: s2_def ninf_def dsum_def)
      have "(s3, s) \<in> dj_rel N"
      proof -
        from s3(3) consider "distances s3 = distances s2" "priority_queue s3 = priority_queue s2"
          | "((ninf N s3, dsum N s3), (ninf N s2, dsum N s2)) \<in> less_than <*lex*> less_than"
          by (auto simp: progress_def)
        then show ?thesis
        proof cases
          case 1
          then have "ninf N s3 = ninf N s" "dsum N s3 = dsum N s" "priority_queue s3 = h"
            using m2 by (simp_all add: ninf_def dsum_def)
          with len show ?thesis by (simp add: dj_rel_def)
        next
          case 2
          with m2 show ?thesis by (simp add: dj_rel_def)
        qed
      qed
      with s3(2) obtain s' where s': "dijkstra_while s3 = Some (Inr s')" "dj_inv A V start s'"
        using 1(1) by blast
      have "dijkstra_while s = dijkstra_while s3"
        using \<open>priority_queue s \<noteq> []\<close> pop d' cd get s3(1)
        by (subst dijkstra_while.simps) (simp add: s2_def)
      with s' show ?thesis by auto
    qed
  qed
qed

definition nonneg_weights :: "'v adjacency \<Rightarrow> bool" where
  "nonneg_weights a = (\<forall>(u, l)\<in>set a. \<forall>(v, w)\<in>set l. 0 \<le> w)"

lemma nonneg_weights_adj_of: "nonneg_weights a \<Longrightarrow> (v, w) \<in> set (adj_of a u) \<Longrightarrow> 0 \<le> w"
proof (cases "map_of a u")
  case None
  assume "(v, w) \<in> set (adj_of a u)"
  with None show ?thesis by (simp add: adj_of_def)
next
  case (Some l)
  assume n: "nonneg_weights a" and m: "(v, w) \<in> set (adj_of a u)"
  from Some have "(u, l) \<in> set a" by (rule map_of_SomeD)
  with n have "\<forall>(v, w)\<in>set l. 0 \<le> w" unfolding nonneg_weights_def by blast
  with m Some show ?thesis by (auto simp: adj_of_def)
qed

text \<open>
  C10. On a graph built by \<^verbatim>\<open>add_vertex\<close> and \<^verbatim>\<open>add_edge\<close> calls whose weights are all
  non-negative, and for a start vertex of the graph, \<^verbatim>\<open>dijkstra\<close> returns (it neither
  raises nor loops) a pair of distances and paths such that: whenever the distance of a
  vertex \<open>v\<close> is finite, the path of \<open>v\<close> begins at the start vertex, ends at \<open>v\<close>, follows
  edges of the adjacency only, and the weights of its edges add up to the distance;
  whenever the distance of \<open>v\<close> is infinite, the path of \<open>v\<close> is empty.
\<close>

theorem dijkstra_consistent:
  fixes cs :: "('v::linorder) graph_call list"
  assumes g: "g = build d cs"
    and nn: "nonneg_weights (adj_list g)"
    and start: "start_vertex \<in> vertices g"
  shows "\<exists>ds ps g'. dijkstra g start_vertex = Some (Inr (Distances_paths ds ps, g'))
     \<and> (\<forall>v x. ds v = Some (Fin x) \<longrightarrow>
           (\<exists>p. ps v = Some p \<and> consistent_path (adj_of (adj_list g)) start_vertex v p x))
     \<and> (\<forall>v. ds v = Some Infinity \<longrightarrow> ps v = Some [])"
proof -
  define A where "A = adj_of (adj_list g)"
  define V where "V = vertices g"
  define N where "N = adj_neighbors (adj_list g)"
  define s0 where "s0 = \<lparr>dj_adj = adj_list g,
     distances = (\<lambda>v. if v \<in> vertices g then Some Infinity else None)(start_vertex \<mapsto> Fin 0),
     paths = (\<lambda>v. if v \<in> vertices g then Some [] else None)(start_vertex \<mapsto> [start_vertex]),
     priority_queue = [(0, start_vertex)]\<rparr>"
  have NV: "N \<subseteq> V" using build_closed[of d cs] by (auto simp: N_def V_def g)
  have nb: "\<forall>u. fst ` set (A u) \<subseteq> V \<inter> N"
    using adj_of_neighbors[of "adj_list g"] NV by (auto simp: A_def N_def)
  have nn': "\<forall>u v w. (v, w) \<in> set (A u) \<longrightarrow> 0 \<le> w"
    using nonneg_weights_adj_of[OF nn] by (auto simp: A_def)
  have fin: "finite N" by (simp add: N_def finite_adj_neighbors)
  have "dj_inv A V start_vertex s0"
    unfolding dj_inv_def using start
    by (auto simp: s0_def A_def V_def consistent_path_def)
  from dijkstra_while_total[OF nb nn' fin this] obtain s' where
    s': "dijkstra_while s0 = Some (Inr s')" "dj_inv A V start_vertex s'" by blast
  have "dijkstra g start_vertex = Some (Inr (Distances_paths (distances s') (paths s'), g\<lparr>adj_list := dj_adj s'\<rparr>))"
    using start s'(1) by (simp add: dijkstra_def s0_def)
  moreover have "\<forall>v x. distances s' v = Some (Fin x) \<longrightarrow>
           (\<exists>p. paths s' v = Some p \<and> consistent_path (adj_of (adj_list g)) start_vertex v p x)"
    using dj_inv_fin[OF s'(2)] by (simp add: A_def)
  moreover have "\<forall>v. distances s' v = Some Infinity \<longrightarrow> paths s' v = Some []"
    using s'(2) by (simp add: dj_inv_def)
  ultimately show ?thesis by blast
qed

theorem dijkstra_consistent_witness:
  "nonneg_weights (adj_list main_graph) \<and> ''A'' \<in> vertices main_graph
   \<and> (\<exists>ds ps g'. dijkstra main_graph ''A'' = Some (Inr (Distances_paths ds ps, g'))
     \<and> (\<forall>v x. ds v = Some (Fin x) \<longrightarrow>
           (\<exists>p. ps v = Some p \<and> consistent_path (adj_of (adj_list main_graph)) ''A'' v p x))
     \<and> (\<forall>v. ds v = Some Infinity \<longrightarrow> ps v = Some []))"
proof -
  have a: "adj_list main_graph = [(''A'', [(''B'', 4), (''C'', 2)]), (''B'', [(''C'', 1), (''D'', 5)]),
      (''C'', [(''D'', 8), (''E'', 10)]), (''D'', [(''E'', 2)]), (''E'', [(''D'', 7)])]"
    by code_simp
  have n: "nonneg_weights (adj_list main_graph)"
    unfolding a by (simp add: nonneg_weights_def)
  have v: "''A'' \<in> vertices main_graph"
    by (simp add: main_graph_def build_def Graph_def add_edge_def)
  from n v dijkstra_consistent[OF main_graph_def n v] show ?thesis by blast
qed

section \<open>C4: the algorithms and the graph they are given\<close>

text \<open>
  \<open>adj_extends a a'\<close>: the adjacency \<open>a'\<close> is \<open>a\<close> followed by keys that hold the empty list.
  That is all a defaultdict read can do to the adjacency.
\<close>

definition adj_extends :: "'v adjacency \<Rightarrow> 'v adjacency \<Rightarrow> bool" where
  "adj_extends a a' = (take (length a) a' = a \<and> (\<forall>(k, l)\<in>set (drop (length a) a'). l = []))"

definition graph_kept :: "'v graph \<Rightarrow> 'v graph \<Rightarrow> bool" where
  "graph_kept g g' =
     (directed g' = directed g \<and> vertices g' = vertices g \<and> edges g' = edges g
      \<and> adj_extends (adj_list g) (adj_list g'))"






lemma graph_kept_adj: "adj_extends (adj_list g) a \<Longrightarrow> graph_kept g (g\<lparr>adj_list := a\<rparr>)"
  by (simp add: graph_kept_def)

subsection \<open>MaxFlow\<close>




subsection \<open>MST\<close>





subsection \<open>AdvancedGraphAlgorithms\<close>








subsection \<open>The claim\<close>






end
